theory Spec2Isabelle
  imports Complex_Main
begin

section \<open>Data model\<close>

text \<open>
  Python values that reach the \<open>previous_hash\<close> field. The field is annotated \<open>str\<close>, but
  \<open>genesis_block\<close> passes the integer \<open>1\<close> and callers may pass \<open>None\<close>, so the model
  keeps the three shapes apart. \<open>truthy\<close> is Python's truth test, which decides the
  \<open>or\<close> in \<open>new_block\<close>.
\<close>

datatype pyval = PNone | PInt int | PStr string

fun truthy :: "pyval \<Rightarrow> bool" where
  "truthy PNone = False"
| "truthy (PInt i) = (i \<noteq> 0)"
| "truthy (PStr s) = (s \<noteq> [])"

text \<open>
  The dataclasses. Python floats (\<open>amount\<close>, \<open>timestamp\<close>) are reals here: nothing
  below computes with them.
\<close>

record Transaction =
  sender :: string
  recipient :: string
  amount :: real

record Block =
  index :: int
  timestamp :: real
  transactions :: "Transaction list"
  "proof" :: int
  previous_hash :: pyval

record Blockchain =
  nodes :: "string set"
  chain :: "Block list"
  unverified_transactions :: "Transaction list"

datatype error =
    AttributeError
  | IndexError
  | ConnectionError
  | JSONDecodeError
  | KeyError
  | TypeError

text \<open>
  The library functions the module imports: \<open>sha256(...).hexdigest()\<close> of hashlib,
  \<open>to_json\<close> of \<open>DataClassJsonMixin\<close> and \<open>json.dumps\<close> on a string. They are
  parameters of every definition that reaches them.
\<close>

record lib =
  sha256_hexdigest :: "string \<Rightarrow> string"
  to_json :: "Block \<Rightarrow> string"
  dumps :: "string \<Rightarrow> string"

section \<open>Hashing and the puzzle\<close>

definition hash :: "lib \<Rightarrow> string \<Rightarrow> string" where
  "hash L data = sha256_hexdigest L data"

definition block_hash :: "lib \<Rightarrow> Block \<Rightarrow> string" where
  "block_hash L block = (let data = dumps L (to_json L block) in hash L data)"

text \<open>Python's \<open>str\<close> of an integer, which is what an f-string field renders.\<close>

definition digit_char :: "nat \<Rightarrow> char" where
  "digit_char d = ''0123456789'' ! d"

fun str_nat :: "nat \<Rightarrow> string" where
  "str_nat n = (if n < 10 then [digit_char n] else str_nat (n div 10) @ [digit_char (n mod 10)])"

declare str_nat.simps [simp del]

definition str_int :: "int \<Rightarrow> string" where
  "str_int i = (if i < 0 then CHR ''-'' # str_nat (nat (- i)) else str_nat (nat i))"

definition valid_proof :: "lib \<Rightarrow> int \<Rightarrow> int \<Rightarrow> bool" where
  "valid_proof L last_proof p =
     (let guess = hash L (str_int last_proof @ str_int p) in take 4 guess = ''0000'')"

text \<open>
  The \<open>while\<close> loop of \<open>proof_of_work\<close>. It has no bound, so the model is a partial
  function: \<open>None\<close> is the loop that never leaves.
\<close>

partial_function (option) proof_of_work_loop :: "lib \<Rightarrow> int \<Rightarrow> int \<Rightarrow> int option" where
  "proof_of_work_loop L last_proof p =
     (if valid_proof L last_proof p = False then proof_of_work_loop L last_proof (p + 1)
      else Some p)"

definition proof_of_work :: "lib \<Rightarrow> int \<Rightarrow> int option" where
  "proof_of_work L last_proof = proof_of_work_loop L last_proof 0"

section \<open>Chain validation\<close>

text \<open>
  The \<open>for\<close> loop of \<open>valid_chain\<close>, with \<open>last_block\<close> as the loop variable:
  \<open>None\<close> before the first block, the block just visited afterwards.
\<close>

fun valid_chain_loop :: "lib \<Rightarrow> Block option \<Rightarrow> Block list \<Rightarrow> bool" where
  "valid_chain_loop L last_block [] = True"
| "valid_chain_loop L None (block # rest) = valid_chain_loop L (Some block) rest"
| "valid_chain_loop L (Some last_block) (block # rest) =
     (if previous_hash block \<noteq> PStr (block_hash L last_block) then False
      else if \<not> valid_proof L (proof last_block) (proof block) then False
      else valid_chain_loop L (Some block) rest)"

definition valid_chain :: "lib \<Rightarrow> Block list \<Rightarrow> bool" where
  "valid_chain L c = valid_chain_loop L None c"

section \<open>The Blockchain class\<close>

text \<open>
  Every method takes the object's state and returns the state it leaves behind, next to
  its return value or the exception it raised. \<open>time()\<close> is the argument \<open>now\<close>.
\<close>

definition register_node :: "string \<Rightarrow> Blockchain \<Rightarrow> unit \<times> Blockchain" where
  "register_node address s = ((), s\<lparr>nodes := insert address (nodes s)\<rparr>)"

definition last_block :: "Blockchain \<Rightarrow> error + Block" where
  "last_block s = (if chain s = [] then Inl IndexError else Inr (last (chain s)))"

definition new_transaction ::
  "string \<Rightarrow> string \<Rightarrow> real \<Rightarrow> Blockchain \<Rightarrow> Transaction \<times> Blockchain" where
  "new_transaction sndr rcpt amt s =
     (let transaction = \<lparr>sender = sndr, recipient = rcpt, amount = amt\<rparr>
      in (transaction,
          s\<lparr>unverified_transactions := unverified_transactions s @ [transaction]\<rparr>))"

text \<open>
  \<open>new_block\<close> evaluates \<open>previous_hash or self.last_block_hash\<close> while it builds
  the block. The class defines no attribute \<open>last_block_hash\<close> (only the property
  \<open>last_block\<close>), so a falsy \<open>previous_hash\<close> raises AttributeError before anything is
  assigned.
\<close>

definition new_block :: "int \<Rightarrow> pyval \<Rightarrow> real \<Rightarrow> Blockchain \<Rightarrow> (error + Block) \<times> Blockchain" where
  "new_block p prev now s =
     (if truthy prev then
        let block = \<lparr>index = int (length (chain s)) + 1, timestamp = now,
                      transactions = unverified_transactions s, proof = p,
                      previous_hash = prev\<rparr>
        in (Inr block, s\<lparr>unverified_transactions := [], chain := chain s @ [block]\<rparr>)
      else (Inl AttributeError, s))"

definition genesis_block :: "real \<Rightarrow> Blockchain \<Rightarrow> (error + Block) \<times> Blockchain" where
  "genesis_block now s = new_block 100 (PInt 1) now s"

definition Blockchain_init :: "real \<Rightarrow> (error + unit) \<times> Blockchain" where
  "Blockchain_init now =
     (let s = \<lparr>nodes = {}, chain = [], unverified_transactions = []\<rparr>
      in case genesis_block now s of
           (Inl e, s') \<Rightarrow> (Inl e, s')
         | (Inr block, s') \<Rightarrow> (Inr (), s'))"

section \<open>Reconciliation\<close>

text \<open>
  What \<open>requests.get\<close> hands back: it raises, or it returns a response with a status
  code and a body. The body either decodes to a list of blocks or makes one of
  \<open>response.json()\<close>, the lookup of \<open>'chain'\<close> and \<open>Block.load_many\<close> raise.
\<close>

datatype payload = Undecodable | Missing_chain | Bad_blocks | Blocks "Block list"

datatype response = Response (status_code: int) (body: payload)

fun load_chain :: "payload \<Rightarrow> error + Block list" where
  "load_chain Undecodable = Inl JSONDecodeError"
| "load_chain Missing_chain = Inl KeyError"
| "load_chain Bad_blocks = Inl TypeError"
| "load_chain (Blocks c) = Inr c"

definition CHAIN_ENDPOINT :: string where
  "CHAIN_ENDPOINT = ''chain''"

definition chain_url :: "string \<Rightarrow> string" where
  "chain_url node = ''http://'' @ node @ ''/'' @ CHAIN_ENDPOINT"

text \<open>
  The network and the iteration order of the Python set are inputs: \<open>get\<close> is
  \<open>requests.get\<close>, \<open>iter\<close> lists a set in the order the \<open>for\<close> loop visits it.
\<close>

record net =
  get :: "string \<Rightarrow> error + response"
  iter :: "string set \<Rightarrow> string list"

fun resolve_conflicts_loop ::
  "lib \<Rightarrow> net \<Rightarrow> string list \<Rightarrow> bool \<Rightarrow> Blockchain \<Rightarrow> (error + bool) \<times> Blockchain" where
  "resolve_conflicts_loop L N [] replaced s = (Inr replaced, s)"
| "resolve_conflicts_loop L N (node # rest) replaced s =
     (case get N (chain_url node) of
        Inl e \<Rightarrow> (Inl e, s)
      | Inr response \<Rightarrow>
          if status_code response = 200 then
            (case load_chain (body response) of
               Inl e \<Rightarrow> (Inl e, s)
             | Inr c \<Rightarrow>
                 if length c > length (chain s) \<and> valid_chain L c
                 then resolve_conflicts_loop L N rest True (s\<lparr>chain := c\<rparr>)
                 else resolve_conflicts_loop L N rest replaced s)
          else resolve_conflicts_loop L N rest replaced s)"

definition resolve_conflicts :: "lib \<Rightarrow> net \<Rightarrow> Blockchain \<Rightarrow> (error + bool) \<times> Blockchain" where
  "resolve_conflicts L N s = resolve_conflicts_loop L N (iter N (nodes s)) False s"

text \<open>
  The chains a run over \<open>ns\<close> can adopt: fetched with status 200, decoded, and then the
  ones longer than \<open>n\<close> blocks that pass \<open>valid_chain\<close>.
\<close>

fun fetched :: "net \<Rightarrow> string list \<Rightarrow> Block list list" where
  "fetched N [] = []"
| "fetched N (node # rest) =
     (case get N (chain_url node) of
        Inr (Response code (Blocks c)) \<Rightarrow>
          if code = 200 then c # fetched N rest else fetched N rest
      | _ \<Rightarrow> fetched N rest)"

definition candidates :: "lib \<Rightarrow> net \<Rightarrow> nat \<Rightarrow> string list \<Rightarrow> Block list list" where
  "candidates L N n ns = filter (\<lambda>c. n < length c \<and> valid_chain L c) (fetched N ns)"

text \<open>A peer answers cleanly when the loop body cannot raise on it.\<close>

definition answers :: "net \<Rightarrow> string \<Rightarrow> bool" where
  "answers N node =
     (case get N (chain_url node) of
        Inl e \<Rightarrow> False
      | Inr response \<Rightarrow>
          status_code response \<noteq> 200 \<or> (case load_chain (body response) of Inl e \<Rightarrow> False | Inr c \<Rightarrow> True))"

definition refuses :: "net \<Rightarrow> string \<Rightarrow> bool" where
  "refuses N node =
     (case get N (chain_url node) of
        Inl e \<Rightarrow> False
      | Inr response \<Rightarrow> status_code response \<noteq> 200)"

section \<open>Mining\<close>

text \<open>
  The \<open>/mine\<close> handler: \<open>None\<close> when the puzzle search never returns.
\<close>

definition mine ::
  "lib \<Rightarrow> string \<Rightarrow> real \<Rightarrow> Blockchain \<Rightarrow> ((error + Block \<times> Transaction) \<times> Blockchain) option" where
  "mine L node_identifier now s =
     (case last_block s of
        Inl e \<Rightarrow> Some (Inl e, s)
      | Inr lb \<Rightarrow>
          (case proof_of_work L (proof lb) of
             None \<Rightarrow> None
           | Some p \<Rightarrow>
               let (mining_fee, s1) = new_transaction ''0'' node_identifier 1 s;
                   prev = block_hash L lb
               in (case new_block p (PStr prev) now s1 of
                     (Inl e, s2) \<Rightarrow> Some (Inl e, s2)
                   | (Inr block, s2) \<Rightarrow> Some (Inr (block, mining_fee), s2))))"

text \<open>
  Sealing the next block the way the handler does, without the fee: the proof is
  \<open>proof_of_work\<close> of the last block's proof, the previous hash is \<open>block_hash\<close> of the
  last block.
\<close>

definition seal_next :: "lib \<Rightarrow> real \<Rightarrow> Blockchain \<Rightarrow> ((error + Block) \<times> Blockchain) option" where
  "seal_next L now s =
     (case last_block s of
        Inl e \<Rightarrow> Some (Inl e, s)
      | Inr lb \<Rightarrow>
          (case proof_of_work L (proof lb) of
             None \<Rightarrow> None
           | Some p \<Rightarrow> Some (new_block p (PStr (block_hash L lb)) now s)))"

datatype call =
    Submit string string real
  | Register string
  | Seal real
  | Mine string real

fun is_sealing :: "call \<Rightarrow> bool" where
  "is_sealing (Seal now) = True"
| "is_sealing (Mine node_identifier now) = True"
| "is_sealing _ = False"

text \<open>
  A sequence of calls on one object. The result is \<open>None\<close> when a puzzle search never
  returns, \<open>Some (Inl e)\<close> when a call raises, \<open>Some (Inr s)\<close> when all of them return.
\<close>

fun run :: "lib \<Rightarrow> call list \<Rightarrow> Blockchain \<Rightarrow> (error + Blockchain) option" where
  "run L [] s = Some (Inr s)"
| "run L (Submit sndr rcpt amt # cs) s = run L cs (snd (new_transaction sndr rcpt amt s))"
| "run L (Register address # cs) s = run L cs (snd (register_node address s))"
| "run L (Seal now # cs) s =
     (case seal_next L now s of
        None \<Rightarrow> None
      | Some (Inl e, s') \<Rightarrow> Some (Inl e)
      | Some (Inr block, s') \<Rightarrow> run L cs s')"
| "run L (Mine node_identifier now # cs) s =
     (case mine L node_identifier now s of
        None \<Rightarrow> None
      | Some (Inl e, s') \<Rightarrow> Some (Inl e)
      | Some (Inr r, s') \<Rightarrow> run L cs s')"

section \<open>A small library instance for evaluation\<close>

text \<open>
  The theorems below hold for every library \<open>L\<close>. To run the definitions on concrete
  inputs, \<open>demo_lib\<close> supplies a digest that starts with four zeros exactly when the
  character codes of its input sum to 3 modulo 4, and a flat rendering of a block.
\<close>

definition demo_sha256 :: "string \<Rightarrow> string" where
  "demo_sha256 data =
     (if sum_list (map of_char data) mod 4 = (3::nat) then ''0000'' @ data else ''ffff'' @ data)"

fun demo_pyval :: "pyval \<Rightarrow> string" where
  "demo_pyval PNone = ''null''"
| "demo_pyval (PInt i) = str_int i"
| "demo_pyval (PStr s) = s"

definition demo_transaction :: "Transaction \<Rightarrow> string" where
  "demo_transaction t = sender t @ ''>'' @ recipient t @ '':'' @ str_int \<lfloor>amount t\<rfloor>"

definition demo_to_json :: "Block \<Rightarrow> string" where
  "demo_to_json b =
     str_int (index b) @ '','' @ str_int \<lfloor>timestamp b\<rfloor> @ '',''
       @ concat (map demo_transaction (transactions b)) @ '',''
       @ str_int (proof b) @ '','' @ demo_pyval (previous_hash b)"

definition demo_lib :: lib where
  "demo_lib = \<lparr>sha256_hexdigest = demo_sha256, to_json = demo_to_json,
                dumps = (\<lambda>s. ''<'' @ s @ ''>'')\<rparr>"

text \<open>
  \<open>relink\<close> rewrites the \<open>previous_hash\<close> of every block but the first to the hash of
  the block before it and leaves every other field alone. It is used to exhibit valid
  chains with arbitrary indices and timestamps.
\<close>

fun relink :: "lib \<Rightarrow> Block option \<Rightarrow> Block list \<Rightarrow> Block list" where
  "relink L prev [] = []"
| "relink L None (b # bs) = b # relink L (Some b) bs"
| "relink L (Some lb) (b # bs) =
     (let b' = b\<lparr>previous_hash := PStr (block_hash L lb)\<rparr> in b' # relink L (Some b') bs)"

text \<open>Concrete blocks, ledgers and peers.\<close>

definition demo_genesis :: Block where
  "demo_genesis = \<lparr>index = 1, timestamp = 0, transactions = [], proof = 100, previous_hash = PInt 1\<rparr>"

definition demo_pending :: "Transaction list" where
  "demo_pending = [\<lparr>sender = ''A'', recipient = ''B'', amount = 10\<rparr>,
                   \<lparr>sender = ''B'', recipient = ''C'', amount = 5\<rparr>]"

definition demo_ledger :: Blockchain where
  "demo_ledger = \<lparr>nodes = {''peer1'', ''peer2''}, chain = [demo_genesis],
                   unverified_transactions = demo_pending\<rparr>"

definition demo_block2 :: Block where
  "demo_block2 = \<lparr>index = 2, timestamp = 1, transactions = demo_pending, proof = 2,
                   previous_hash = PStr (block_hash demo_lib demo_genesis)\<rparr>"

definition demo_block3 :: Block where
  "demo_block3 = \<lparr>index = 3, timestamp = 2, transactions = [], proof = 1,
                   previous_hash = PStr (block_hash demo_lib demo_block2)\<rparr>"

definition odd_chain :: "Block list" where
  "odd_chain =
     [\<lparr>index = 7, timestamp = 50, transactions = [], proof = 100, previous_hash = PNone\<rparr>,
      \<lparr>index = 3, timestamp = 9, transactions = [], proof = 2,
        previous_hash = PStr (block_hash demo_lib
          \<lparr>index = 7, timestamp = 50, transactions = [], proof = 100, previous_hash = PNone\<rparr>)\<rparr>]"

text \<open>
  Five peers: \<open>peer1\<close> serves a two-block chain, \<open>peer2\<close> a three-block chain,
  \<open>peer3\<close> answers 503, \<open>peer4\<close> cannot be reached, \<open>peer5\<close> answers 200 with a
  body that has no \<open>chain\<close> key. Sets are visited in the order of the list below.
\<close>

definition demo_get :: "string \<Rightarrow> error + response" where
  "demo_get url =
     (if url = ''http://peer1/chain'' then Inr (Response 200 (Blocks [demo_genesis, demo_block2]))
      else if url = ''http://peer2/chain''
        then Inr (Response 200 (Blocks [demo_genesis, demo_block2, demo_block3]))
      else if url = ''http://peer3/chain'' then Inr (Response 503 Undecodable)
      else if url = ''http://peer5/chain'' then Inr (Response 200 Missing_chain)
      else Inl ConnectionError)"

definition demo_net :: net where
  "demo_net = \<lparr>get = demo_get,
                iter = (\<lambda>S. filter (\<lambda>n. n \<in> S) [''peer1'', ''peer2'', ''peer3'', ''peer4'', ''peer5''])\<rparr>"

text \<open>
  Three more ledgers at genesis: \<open>ledger_13\<close> knows \<open>peer1\<close> and \<open>peer3\<close>,
  \<open>ledger_14\<close> knows \<open>peer1\<close> and \<open>peer4\<close>, \<open>ledger_4\<close> knows \<open>peer4\<close> alone.
\<close>

definition ledger_13 :: Blockchain where
  "ledger_13 = \<lparr>nodes = {''peer1'', ''peer3''}, chain = [demo_genesis], unverified_transactions = []\<rparr>"

definition ledger_14 :: Blockchain where
  "ledger_14 = \<lparr>nodes = {''peer1'', ''peer4''}, chain = [demo_genesis], unverified_transactions = []\<rparr>"

definition ledger_4 :: Blockchain where
  "ledger_4 = \<lparr>nodes = {''peer4''}, chain = [demo_genesis], unverified_transactions = []\<rparr>"

text \<open>
  The block the \<open>/mine\<close> handler seals on top of \<open>demo_block2\<close> for the node
  \<open>node\<close>: it carries the mining fee.
\<close>

definition demo_fee_block :: Block where
  "demo_fee_block = \<lparr>index = 3, timestamp = 2,
       transactions = [\<lparr>sender = ''0'', recipient = ''node'', amount = 1\<rparr>], proof = 1,
       previous_hash = PStr (block_hash demo_lib demo_block2)\<rparr>"

definition demo_calls :: "call list" where
  "demo_calls = [Submit ''A'' ''B'' 10, Submit ''B'' ''C'' 5, Seal 1, Register ''peer1'', Mine ''node'' 2]"

text \<open>
  A network with the same peers in which a set is visited in the order \<open>peer1\<close>,
  \<open>peer4\<close>, \<open>peer2\<close>, and a ledger at genesis that knows these three.
\<close>

definition demo_net_142 :: net where
  "demo_net_142 = \<lparr>get = demo_get,
                    iter = (\<lambda>S. filter (\<lambda>n. n \<in> S) [''peer1'', ''peer4'', ''peer2''])\<rparr>"

definition ledger_142 :: Blockchain where
  "ledger_142 = \<lparr>nodes = {''peer1'', ''peer4'', ''peer2''}, chain = [demo_genesis],
                  unverified_transactions = []\<rparr>"

section \<open>The puzzle\<close>

lemmas demo_eval =
  valid_proof_def hash_def block_hash_def demo_lib_def demo_sha256_def demo_to_json_def
  demo_transaction_def str_int_def str_nat.simps digit_char_def

lemmas demo_blocks = demo_genesis_def demo_block2_def demo_block3_def demo_pending_def

lemma demo_urls:
  "chain_url ''peer1'' = ''http://peer1/chain''" "chain_url ''peer2'' = ''http://peer2/chain''"
  "chain_url ''peer3'' = ''http://peer3/chain''" "chain_url ''peer4'' = ''http://peer4/chain''"
  "chain_url ''peer5'' = ''http://peer5/chain''"
  by (simp_all add: chain_url_def CHAIN_ENDPOINT_def)

lemma demo_valid2: "valid_chain demo_lib [demo_genesis, demo_block2]"
  by (simp add: valid_chain_def demo_blocks demo_eval)

lemma demo_valid3: "valid_chain demo_lib [demo_genesis, demo_block2, demo_block3]"
  by (simp add: valid_chain_def demo_blocks demo_eval)

lemma loop_finds_least:
  assumes "valid_proof L lp q" and "p \<le> q"
  shows "\<exists>r. proof_of_work_loop L lp p = Some r \<and> p \<le> r \<and> r \<le> q \<and> valid_proof L lp r
           \<and> (\<forall>k. p \<le> k \<and> k < r \<longrightarrow> \<not> valid_proof L lp k)"
  using assms
proof (induction "nat (q - p)" arbitrary: p)
  case 0
  then have "p = q" by simp
  with 0 show ?case by (subst proof_of_work_loop.simps) auto
next
  case (Suc n)
  show ?case
  proof (cases "valid_proof L lp p")
    case True
    then show ?thesis using Suc.prems by (subst proof_of_work_loop.simps) auto
  next
    case False
    with Suc.prems have "p \<noteq> q" by auto
    with Suc.prems Suc.hyps have a: "n = nat (q - (p + 1))" "p + 1 \<le> q" by auto
    from Suc.hyps(1)[OF a(1) Suc.prems(1) a(2)] obtain r where
      r: "proof_of_work_loop L lp (p + 1) = Some r" "p + 1 \<le> r" "r \<le> q" "valid_proof L lp r"
         "\<forall>k. p + 1 \<le> k \<and> k < r \<longrightarrow> \<not> valid_proof L lp k" by blast
    have "proof_of_work_loop L lp p = Some r"
      using False r(1) by (subst proof_of_work_loop.simps) simp
    moreover have "\<forall>k. p \<le> k \<and> k < r \<longrightarrow> \<not> valid_proof L lp k"
    proof (intro allI impI)
      fix k assume "p \<le> k \<and> k < r"
      then have "k = p \<or> (p + 1 \<le> k \<and> k < r)" by auto
      then show "\<not> valid_proof L lp k" using False r(5) by blast
    qed
    ultimately show ?thesis using r by auto
  qed
qed

text \<open>
  C3: whenever some non-negative integer satisfies the puzzle predicate for
  \<open>last_proof\<close>, \<open>proof_of_work\<close> terminates and returns the smallest non-negative
  \<open>p\<close> with \<open>valid_proof last_proof p\<close>: the result is valid and nothing below it is.
\<close>

theorem proof_of_work_least:
  "(\<exists>q\<ge>0. valid_proof L last_proof q) \<Longrightarrow>
     (\<exists>p. proof_of_work L last_proof = Some p \<and> 0 \<le> p \<and> valid_proof L last_proof p
        \<and> (\<forall>q. 0 \<le> q \<and> q < p \<longrightarrow> \<not> valid_proof L last_proof q))"
  unfolding proof_of_work_def using loop_finds_least[of L last_proof _ 0] by blast

theorem proof_of_work_least_witness:
  "(\<exists>q\<ge>0. valid_proof demo_lib 100 q) \<and>
   (\<exists>p. proof_of_work demo_lib 100 = Some p \<and> 0 \<le> p \<and> valid_proof demo_lib 100 p
        \<and> (\<forall>q. 0 \<le> q \<and> q < p \<longrightarrow> \<not> valid_proof demo_lib 100 q))"
proof -
  have "(0::int) \<le> 2 \<and> valid_proof demo_lib 100 2"
    by (simp add: demo_eval)
  then have h: "\<exists>q\<ge>0. valid_proof demo_lib 100 q" by blast
  show ?thesis using h proof_of_work_least [OF h] by blast
qed

text \<open>
  C10: \<open>valid_proof\<close> sees its two integers only through the concatenation of their
  decimal strings. Pairs with the same concatenation get the same verdict, for example
  \<open>(1, 23)\<close> and \<open>(12, 3)\<close>, which both render as \<open>123\<close>.
\<close>

theorem valid_proof_concatenation:
  "(str_int a @ str_int b = str_int c @ str_int d \<longrightarrow> valid_proof L a b = valid_proof L c d)
   \<and> str_int 1 @ str_int 23 = str_int 12 @ str_int 3
   \<and> valid_proof L 1 23 = valid_proof L 12 3"
proof (intro conjI impI)
  assume "str_int a @ str_int b = str_int c @ str_int d"
  then show "valid_proof L a b = valid_proof L c d"
    by (simp add: valid_proof_def)
next
  show e: "str_int 1 @ str_int 23 = str_int 12 @ str_int 3"
    by (simp add: str_int_def str_nat.simps)
  then show "valid_proof L 1 23 = valid_proof L 12 3"
    by (simp add: valid_proof_def)
qed

theorem valid_proof_concatenation_witness:
  "str_int 1 @ str_int 23 = ''123'' \<and> str_int 12 @ str_int 3 = ''123''
   \<and> valid_proof demo_lib 1 23 = valid_proof demo_lib 12 3"
  using valid_proof_concatenation [of 1 23 12 3 demo_lib]
  by (simp add: str_int_def str_nat.simps digit_char_def)

section \<open>Chain validation\<close>

lemma valid_chain_loop_nth:
  "valid_chain_loop L (Some lb) bs =
     (\<forall>i<length bs. previous_hash (bs ! i) = PStr (block_hash L ((lb # bs) ! i))
        \<and> valid_proof L (proof ((lb # bs) ! i)) (proof (bs ! i)))"
proof (induction bs arbitrary: lb)
  case Nil
  show ?case by simp
next
  case (Cons b bs)
  show ?case by (simp add: Cons.IH All_less_Suc2)
qed

lemma valid_chain_nth:
  "valid_chain L c =
     (\<forall>i. Suc i < length c \<longrightarrow> previous_hash (c ! Suc i) = PStr (block_hash L (c ! i))
        \<and> valid_proof L (proof (c ! i)) (proof (c ! Suc i)))"
proof (cases c)
  case Nil
  then show ?thesis by (simp add: valid_chain_def)
next
  case (Cons b bs)
  then show ?thesis by (simp add: valid_chain_def valid_chain_loop_nth)
qed

lemma relink_fields:
  "map index (relink L prev bs) = map index bs \<and> map timestamp (relink L prev bs) = map timestamp bs
   \<and> map transactions (relink L prev bs) = map transactions bs \<and> map proof (relink L prev bs) = map proof bs"
  by (induction L prev bs rule: relink.induct) (simp_all add: Let_def)

lemma relink_valid_Some:
  "(\<forall>i<length bs. valid_proof L (proof ((lb # bs) ! i)) (proof (bs ! i)))
     \<Longrightarrow> valid_chain_loop L (Some lb) (relink L (Some lb) bs)"
proof (induction bs arbitrary: lb)
  case Nil
  show ?case by simp
next
  case (Cons b bs)
  let ?b' = "b\<lparr>previous_hash := PStr (block_hash L lb)\<rparr>"
  from Cons.prems have h0: "valid_proof L (proof lb) (proof b)" by auto
  from Cons.prems have "\<forall>i<length bs. valid_proof L (proof ((b # bs) ! i)) (proof (bs ! i))"
    by (auto simp: All_less_Suc2)
  then have t: "\<And>i. i < length bs \<Longrightarrow> valid_proof L (proof ((b # bs) ! i)) (proof (bs ! i))"
    by blast
  have "\<forall>i<length bs. valid_proof L (proof ((?b' # bs) ! i)) (proof (bs ! i))"
  proof (intro allI impI)
    fix i assume "i < length bs"
    from t[OF this] show "valid_proof L (proof ((?b' # bs) ! i)) (proof (bs ! i))"
      by (cases i) simp_all
  qed
  from Cons.IH[OF this] h0 show ?case by (simp add: Let_def)
qed

lemma relink_valid:
  assumes "\<forall>i. Suc i < length c \<longrightarrow> valid_proof L (proof (c ! i)) (proof (c ! Suc i))"
  shows "valid_chain L (relink L None c)"
proof (cases c)
  case Nil
  then show ?thesis by (simp add: valid_chain_def)
next
  case (Cons b bs)
  with assms have "\<forall>i<length bs. valid_proof L (proof ((b # bs) ! i)) (proof (bs ! i))" by auto
  from relink_valid_Some[OF this] Cons show ?thesis by (simp add: valid_chain_def)
qed

text \<open>
  C5: \<open>valid_chain\<close> accepts every chain of at most one block, and a longer chain
  exactly when each adjacent pair has the later block's \<open>previous_hash\<close> equal to
  \<open>block_hash\<close> of the earlier one and a proof that is valid against the earlier
  proof. Indices and timestamps are never inspected: any choice of indices, timestamps
  and transactions, with proofs that chain, is carried by some valid chain.
\<close>

theorem valid_chain_pairs:
  "(length c \<le> 1 \<longrightarrow> valid_chain L c)
   \<and> (valid_chain L c \<longleftrightarrow>
        (\<forall>i. Suc i < length c \<longrightarrow>
           previous_hash (c ! Suc i) = PStr (block_hash L (c ! i))
           \<and> valid_proof L (proof (c ! i)) (proof (c ! Suc i))))
   \<and> (\<exists>c'. map index c' = map index c \<and> map timestamp c' = map timestamp c
          \<and> map transactions c' = map transactions c \<and> map proof c' = map proof c
          \<and> ((\<forall>i. Suc i < length c \<longrightarrow> valid_proof L (proof (c ! i)) (proof (c ! Suc i)))
               \<longrightarrow> valid_chain L c'))"
proof (intro conjI)
  show "length c \<le> 1 \<longrightarrow> valid_chain L c" by (simp add: valid_chain_nth)
  show "valid_chain L c \<longleftrightarrow>
        (\<forall>i. Suc i < length c \<longrightarrow>
           previous_hash (c ! Suc i) = PStr (block_hash L (c ! i))
           \<and> valid_proof L (proof (c ! i)) (proof (c ! Suc i)))" by (rule valid_chain_nth)
  show "\<exists>c'. map index c' = map index c \<and> map timestamp c' = map timestamp c
          \<and> map transactions c' = map transactions c \<and> map proof c' = map proof c
          \<and> ((\<forall>i. Suc i < length c \<longrightarrow> valid_proof L (proof (c ! i)) (proof (c ! Suc i)))
               \<longrightarrow> valid_chain L c')"
    using relink_fields[of L None c] relink_valid[of c L] by blast
qed


theorem valid_chain_pairs_witness:
  "valid_chain demo_lib odd_chain \<and> map index odd_chain = [7, 3]
   \<and> map timestamp odd_chain = [50, 9]"
proof -
  have "\<forall>i. Suc i < length odd_chain \<longrightarrow>
           previous_hash (odd_chain ! Suc i) = PStr (block_hash demo_lib (odd_chain ! i))
           \<and> valid_proof demo_lib (proof (odd_chain ! i)) (proof (odd_chain ! Suc i))"
    by (simp add: odd_chain_def valid_proof_def hash_def demo_lib_def demo_sha256_def
        str_int_def str_nat.simps digit_char_def)
  with valid_chain_pairs [of odd_chain demo_lib] have "valid_chain demo_lib odd_chain" by blast
  then show ?thesis by (simp add: odd_chain_def)
qed

section \<open>The methods of Blockchain\<close>

text \<open>
  C2: called with \<open>previous_hash = None\<close>, \<open>new_block\<close> does not fall back to the
  hash of the last block. It raises AttributeError and leaves the ledger as it was.
\<close>

theorem new_block_none_raises:
  "new_block p PNone now s = (Inl AttributeError, s)"
  by (simp add: new_block_def)

theorem new_block_none_raises_witness:
  "new_block 2 PNone 1 demo_ledger = (Inl AttributeError, demo_ledger)
   \<and> chain demo_ledger = [demo_genesis]"
  using new_block_none_raises [of 2 1 demo_ledger] by (simp add: demo_ledger_def)

text \<open>
  C6: whenever \<open>new_block\<close> returns, the pending pool is empty, the block carries the
  transactions that were pending, in order, its index is the old chain length plus one,
  and it is the new last element of a chain whose earlier elements are unchanged. It
  returns whenever \<open>previous_hash\<close> is truthy.
\<close>

theorem new_block_effect:
  "(truthy prev \<longrightarrow> (\<exists>block s'. new_block p prev now s = (Inr block, s')))
   \<and> (\<forall>block s'. new_block p prev now s = (Inr block, s') \<longrightarrow>
         unverified_transactions s' = []
         \<and> transactions block = unverified_transactions s
         \<and> index block = int (length (chain s)) + 1
         \<and> chain s' = chain s @ [block]
         \<and> last (chain s') = block
         \<and> take (length (chain s)) (chain s') = chain s)"
  by (auto simp: new_block_def Let_def)

theorem new_block_effect_witness:
  "truthy (PStr ''abc'')
   \<and> (\<exists>block s'. new_block 2 (PStr ''abc'') 1 demo_ledger = (Inr block, s')
         \<and> unverified_transactions s' = []
         \<and> transactions block = demo_pending
         \<and> index block = 2
         \<and> chain s' = [demo_genesis, block])"
proof -
  have t: "truthy (PStr ''abc'')" by simp
  from new_block_effect [of "PStr ''abc''" 2 1 demo_ledger] t
  obtain block s' where r: "new_block 2 (PStr ''abc'') 1 demo_ledger = (Inr block, s')" by blast
  with new_block_effect [of "PStr ''abc''" 2 1 demo_ledger]
  have "unverified_transactions s' = []
         \<and> transactions block = unverified_transactions demo_ledger
         \<and> index block = int (length (chain demo_ledger)) + 1
         \<and> chain s' = chain demo_ledger @ [block]" by blast
  then have "unverified_transactions s' = []
         \<and> transactions block = demo_pending
         \<and> index block = 2
         \<and> chain s' = [demo_genesis, block]" by (simp add: demo_ledger_def)
  with t r show ?thesis by blast
qed

text \<open>
  C8: construction leaves exactly one block in the chain, with index 1, proof 100,
  previous hash 1 and no transactions; the pending pool and the node set are empty.
  The chain passes \<open>valid_chain\<close> whatever the digest is, so the genesis proof is not
  held to the puzzle.
\<close>

theorem genesis_on_construction:
  "Blockchain_init now =
     (Inr (), \<lparr>nodes = {},
               chain = [\<lparr>index = 1, timestamp = now, transactions = [], proof = 100,
                         previous_hash = PInt 1\<rparr>],
               unverified_transactions = []\<rparr>)
   \<and> valid_chain L (chain (snd (Blockchain_init now)))"
  by (simp add: Blockchain_init_def genesis_block_def new_block_def valid_chain_def Let_def)

theorem genesis_on_construction_witness:
  "Blockchain_init 0 = (Inr (), \<lparr>nodes = {}, chain = [demo_genesis], unverified_transactions = []\<rparr>)
   \<and> valid_chain demo_lib [demo_genesis]"
  using genesis_on_construction [of 0 demo_lib]
  by (simp add: demo_genesis_def valid_chain_def demo_eval)

lemma loop_frame:
  "nodes (snd (resolve_conflicts_loop L N ns replaced s)) = nodes s
   \<and> unverified_transactions (snd (resolve_conflicts_loop L N ns replaced s)) = unverified_transactions s"
  by (induction ns arbitrary: replaced s) (auto split: sum.splits)

text \<open>
  C9: \<open>new_transaction\<close> appends one transaction to the pending pool, returns it and
  leaves chain and nodes alone; \<open>register_node\<close> changes only the node set;
  \<open>resolve_conflicts\<close> leaves the pending pool and the node set alone. So the chain
  changes only in \<open>new_block\<close> and \<open>resolve_conflicts\<close>, and pending transactions
  are removed only in \<open>new_block\<close>.
\<close>

theorem frame_effects:
  "fst (new_transaction sndr rcpt amt s) = \<lparr>sender = sndr, recipient = rcpt, amount = amt\<rparr>
   \<and> unverified_transactions (snd (new_transaction sndr rcpt amt s))
       = unverified_transactions s @ [fst (new_transaction sndr rcpt amt s)]
   \<and> chain (snd (new_transaction sndr rcpt amt s)) = chain s
   \<and> nodes (snd (new_transaction sndr rcpt amt s)) = nodes s
   \<and> nodes (snd (register_node address s)) = insert address (nodes s)
   \<and> chain (snd (register_node address s)) = chain s
   \<and> unverified_transactions (snd (register_node address s)) = unverified_transactions s
   \<and> unverified_transactions (snd (resolve_conflicts L N s)) = unverified_transactions s
   \<and> nodes (snd (resolve_conflicts L N s)) = nodes s"
  by (simp add: new_transaction_def register_node_def resolve_conflicts_def loop_frame Let_def)


theorem frame_effects_witness:
  "fst (new_transaction ''C'' ''D'' 3 demo_ledger) = \<lparr>sender = ''C'', recipient = ''D'', amount = 3\<rparr>
   \<and> unverified_transactions (snd (new_transaction ''C'' ''D'' 3 demo_ledger))
       = demo_pending @ [\<lparr>sender = ''C'', recipient = ''D'', amount = 3\<rparr>]
   \<and> chain (snd (new_transaction ''C'' ''D'' 3 demo_ledger)) = [demo_genesis]
   \<and> nodes (snd (register_node ''peer3'' demo_ledger)) = {''peer1'', ''peer2'', ''peer3''}
   \<and> chain (snd (register_node ''peer3'' demo_ledger)) = [demo_genesis]
   \<and> unverified_transactions (snd (register_node ''peer3'' demo_ledger)) = demo_pending
   \<and> unverified_transactions (snd (resolve_conflicts demo_lib demo_net demo_ledger)) = demo_pending
   \<and> nodes (snd (resolve_conflicts demo_lib demo_net demo_ledger)) = {''peer1'', ''peer2''}"
  using frame_effects [of "''C''" "''D''" 3 demo_ledger "''peer3''" demo_lib demo_net]
  by (auto simp: demo_ledger_def)

section \<open>Reconciliation\<close>

lemma candidates_Nil [simp]: "candidates L N n [] = []"
  by (simp add: candidates_def)

lemma candidates_mono:
  "n \<le> m \<Longrightarrow> set (candidates L N m ns) \<subseteq> set (candidates L N n ns)"
  by (auto simp: candidates_def)

lemma candidates_props:
  "c \<in> set (candidates L N n ns) \<Longrightarrow> n < length c \<and> valid_chain L c \<and> c \<in> set (fetched N ns)"
  by (simp add: candidates_def)

lemma candidates_split:
  "c \<in> set (candidates L N n ns) \<Longrightarrow> m < length c \<Longrightarrow> c \<in> set (candidates L N m ns)"
  by (simp add: candidates_def)

lemma candidates_skip:
  "get N (chain_url node) = Inl e \<or>
   (get N (chain_url node) = Inr r \<and> (status_code r \<noteq> 200 \<or> load_chain (body r) = Inl e'))
   \<Longrightarrow> candidates L N n (node # rest) = candidates L N n rest"
  by (cases r; cases "body r") (auto simp: candidates_def split: sum.splits response.splits payload.splits)

lemma candidates_take:
  "get N (chain_url node) = Inr r \<Longrightarrow> status_code r = 200 \<Longrightarrow> load_chain (body r) = Inr c \<Longrightarrow>
   candidates L N n (node # rest) =
     (if n < length c \<and> valid_chain L c then c # candidates L N n rest else candidates L N n rest)"
  by (cases r; cases "body r") (auto simp: candidates_def)

lemma loop_invariant:
  "resolve_conflicts_loop L N ns replaced s = (r, s') \<Longrightarrow>
     (chain s' = chain s \<and> (\<forall>b. r = Inr b \<longrightarrow> b = replaced \<and> candidates L N (length (chain s)) ns = []))
   \<or> (chain s' \<in> set (candidates L N (length (chain s)) ns)
        \<and> (\<forall>b. r = Inr b \<longrightarrow> b \<and> (\<forall>c\<in>set (candidates L N (length (chain s)) ns). length c \<le> length (chain s'))))"
proof (induction ns arbitrary: replaced s)
  case Nil
  then show ?case by auto
next
  case (Cons node rest)
  let ?n = "length (chain s)"
  show ?case
  proof (cases "get N (chain_url node)")
    case (Inl e)
    with Cons.prems show ?thesis by auto
  next
    case (Inr resp)
    show ?thesis
    proof (cases "status_code resp = 200")
      case False
      with Inr Cons.prems have "resolve_conflicts_loop L N rest replaced s = (r, s')" by simp
      from Cons.IH[OF this] candidates_skip[of N node _ resp _ L ?n rest] Inr False
      show ?thesis by simp
    next
      case True
      show ?thesis
      proof (cases "load_chain (body resp)")
        case (Inl e)
        with Inr True Cons.prems show ?thesis by auto
      next
        case c: (Inr c)
        note ct = candidates_take[OF Inr True c, of L _ rest]
        show ?thesis
        proof (cases "?n < length c \<and> valid_chain L c")
          case False
          with Inr True c Cons.prems have "resolve_conflicts_loop L N rest replaced s = (r, s')" by auto
          from Cons.IH[OF this] False ct[of ?n] show ?thesis by auto
        next
          case adopt: True
          with Inr True c Cons.prems
          have run: "resolve_conflicts_loop L N rest True (s\<lparr>chain := c\<rparr>) = (r, s')" by auto
          have here: "candidates L N ?n (node # rest) = c # candidates L N ?n rest"
            using ct[of ?n] adopt by simp
          from Cons.IH[OF run] have
            "(chain s' = c \<and> (\<forall>b. r = Inr b \<longrightarrow> b = True \<and> candidates L N (length c) rest = []))
             \<or> (chain s' \<in> set (candidates L N (length c) rest)
                  \<and> (\<forall>b. r = Inr b \<longrightarrow> b \<and> (\<forall>d\<in>set (candidates L N (length c) rest). length d \<le> length (chain s'))))"
            by simp
          then show ?thesis
          proof
            assume a: "chain s' = c \<and> (\<forall>b. r = Inr b \<longrightarrow> b = True \<and> candidates L N (length c) rest = [])"
            have "\<forall>b. r = Inr b \<longrightarrow> (\<forall>d\<in>set (candidates L N ?n (node # rest)). length d \<le> length (chain s'))"
            proof (intro allI impI ballI)
              fix b d assume rb: "r = Inr b" and d: "d \<in> set (candidates L N ?n (node # rest))"
              show "length d \<le> length (chain s')"
              proof (rule ccontr)
                assume "\<not> length d \<le> length (chain s')"
                with a have "length c < length d" by simp
                moreover from d here this a have "d \<in> set (candidates L N ?n rest)" by auto
                ultimately have "d \<in> set (candidates L N (length c) rest)" by (rule candidates_split[rotated])
                with a rb show False by simp
              qed
            qed
            with a here show ?thesis by auto
          next
            assume a: "chain s' \<in> set (candidates L N (length c) rest)
                  \<and> (\<forall>b. r = Inr b \<longrightarrow> b \<and> (\<forall>d\<in>set (candidates L N (length c) rest). length d \<le> length (chain s')))"
            from adopt have le: "?n \<le> length c" by simp
            from a candidates_mono[OF le, of L N rest] have mem: "chain s' \<in> set (candidates L N ?n rest)" by blast
            from a candidates_props[of "chain s'" L N "length c" rest] have longer: "length c < length (chain s')" by blast
            have "\<forall>b. r = Inr b \<longrightarrow> (\<forall>d\<in>set (candidates L N ?n (node # rest)). length d \<le> length (chain s'))"
            proof (intro allI impI ballI)
              fix b d assume rb: "r = Inr b" and d: "d \<in> set (candidates L N ?n (node # rest))"
              show "length d \<le> length (chain s')"
              proof (cases "length c < length d")
                case False
                with longer show ?thesis by simp
              next
                case True
                with d here have "d \<in> set (candidates L N ?n rest)" by auto
                from candidates_split[OF this True] a rb show ?thesis by blast
              qed
            qed
            with a mem here show ?thesis by auto
          qed
        qed
      qed
    qed
  qed
qed

text \<open>
  C4, as the code has it: \<open>resolve_conflicts\<close> never shortens the chain. After the
  call, whether it returns or raises, the chain is the one held before, or a fetched chain
  that is strictly longer than it and passes \<open>valid_chain\<close>. When the call returns, no
  fetched chain that is longer than the old chain and valid is longer than the one now
  held, and the returned flag is true exactly when the chain changed.
\<close>

theorem resolve_conflicts_longest:
  "resolve_conflicts L N s = (r, s') \<Longrightarrow>
     (chain s' = chain s
        \<or> (chain s' \<in> set (fetched N (iter N (nodes s)))
             \<and> length (chain s) < length (chain s') \<and> valid_chain L (chain s')))
     \<and> length (chain s) \<le> length (chain s')
     \<and> (\<forall>replaced. r = Inr replaced \<longrightarrow>
           (replaced \<longleftrightarrow> chain s' \<noteq> chain s)
           \<and> (\<forall>c\<in>set (candidates L N (length (chain s)) (iter N (nodes s))).
                 length c \<le> length (chain s')))"
proof -
  assume run: "resolve_conflicts L N s = (r, s')"
  let ?cs = "candidates L N (length (chain s)) (iter N (nodes s))"
  from run have "resolve_conflicts_loop L N (iter N (nodes s)) False s = (r, s')"
    by (simp add: resolve_conflicts_def)
  from loop_invariant[OF this] have
    "(chain s' = chain s \<and> (\<forall>b. r = Inr b \<longrightarrow> b = False \<and> ?cs = []))
     \<or> (chain s' \<in> set ?cs
          \<and> (\<forall>b. r = Inr b \<longrightarrow> b \<and> (\<forall>c\<in>set ?cs. length c \<le> length (chain s'))))" .
  then show ?thesis
  proof
    assume "chain s' = chain s \<and> (\<forall>b. r = Inr b \<longrightarrow> b = False \<and> ?cs = [])"
    then show ?thesis by auto
  next
    assume a: "chain s' \<in> set ?cs
          \<and> (\<forall>b. r = Inr b \<longrightarrow> b \<and> (\<forall>c\<in>set ?cs. length c \<le> length (chain s')))"
    with candidates_props[of "chain s'" L N "length (chain s)" "iter N (nodes s)"]
    have p: "length (chain s) < length (chain s')" "valid_chain L (chain s')"
       "chain s' \<in> set (fetched N (iter N (nodes s)))" by auto
    then have "chain s' \<noteq> chain s" by auto
    with a p show ?thesis by auto
  qed
qed

lemma demo_reconcile:
  "resolve_conflicts demo_lib demo_net demo_ledger =
     (Inr True, demo_ledger\<lparr>chain := [demo_genesis, demo_block2, demo_block3]\<rparr>)"
  by (simp add: resolve_conflicts_def demo_net_def demo_ledger_def demo_urls demo_get_def
      demo_valid2 demo_valid3)

theorem resolve_conflicts_longest_witness:
  "resolve_conflicts demo_lib demo_net demo_ledger =
     (Inr True, demo_ledger\<lparr>chain := [demo_genesis, demo_block2, demo_block3]\<rparr>)
   \<and> length (chain demo_ledger) < length [demo_genesis, demo_block2, demo_block3]
   \<and> valid_chain demo_lib [demo_genesis, demo_block2, demo_block3]
   \<and> [demo_genesis, demo_block2, demo_block3] \<in> set (fetched demo_net (iter demo_net (nodes demo_ledger)))"
proof -
  have e: "resolve_conflicts demo_lib demo_net demo_ledger =
     (Inr True, demo_ledger\<lparr>chain := [demo_genesis, demo_block2, demo_block3]\<rparr>)"
    by (rule demo_reconcile)
  have "chain (demo_ledger\<lparr>chain := [demo_genesis, demo_block2, demo_block3]\<rparr>) \<noteq> chain demo_ledger"
    by (simp add: demo_ledger_def)
  with resolve_conflicts_longest [OF e] show ?thesis using e by simp
qed

text \<open>
  C4 as the specification words it fails on \<open>ledger_142\<close>: \<open>peer1\<close> serves a valid
  two-block chain, which is adopted, then \<open>peer4\<close> cannot be reached and the call
  raises. The chain has been replaced although the call does not return true, and the
  chain held is not the longest candidate: the valid three-block chain of \<open>peer2\<close>
  is never fetched.
\<close>

theorem resolve_conflicts_raises_short:
  "resolve_conflicts demo_lib demo_net_142 ledger_142 =
     (Inl ConnectionError, ledger_142\<lparr>chain := [demo_genesis, demo_block2]\<rparr>)
   \<and> [demo_genesis, demo_block2, demo_block3]
       \<in> set (candidates demo_lib demo_net_142 (length (chain ledger_142))
                (iter demo_net_142 (nodes ledger_142)))
   \<and> length [demo_genesis, demo_block2] < length [demo_genesis, demo_block2, demo_block3]"
  by (simp add: resolve_conflicts_def candidates_def demo_net_142_def ledger_142_def demo_urls
      demo_get_def demo_valid2 demo_valid3)

lemma loop_skip_refusing:
  "refuses N node \<Longrightarrow>
     resolve_conflicts_loop L N (pre @ node # post) replaced s =
     resolve_conflicts_loop L N (pre @ post) replaced s"
  by (induction pre arbitrary: replaced s) (auto simp: refuses_def split: sum.splits)

lemma loop_returns:
  "\<forall>n\<in>set ns. answers N n \<Longrightarrow> \<exists>b. fst (resolve_conflicts_loop L N ns replaced s) = Inr b"
  by (induction ns arbitrary: replaced s) (auto simp: answers_def split: sum.splits)

lemma loop_raises:
  "\<forall>m\<in>set pre. answers N m \<Longrightarrow> \<not> answers N n \<Longrightarrow>
     \<exists>e. resolve_conflicts_loop L N (pre @ n # post) replaced s =
           (Inl e, snd (resolve_conflicts_loop L N pre replaced s))"
  by (induction pre arbitrary: replaced s) (auto simp: answers_def split: sum.splits)

text \<open>
  C1, as the code has it: a peer that answers with a status other than 200 is skipped and
  the remaining peers are still evaluated, and when every peer either does that or answers
  200 with a chain that decodes, the call returns. A peer that cannot be reached, or that
  answers 200 with a body that does not decode, is not skipped: the exception leaves
  \<open>resolve_conflicts\<close> at that peer, with the chain as the peers before it left it.
\<close>

theorem resolve_conflicts_peer_failures:
  "(iter N (nodes s) = pre @ n # post \<and> refuses N n \<longrightarrow>
      resolve_conflicts L N s = resolve_conflicts_loop L N (pre @ post) False s)
   \<and> ((\<forall>m\<in>set (iter N (nodes s)). answers N m) \<longrightarrow>
        (\<exists>b. fst (resolve_conflicts L N s) = Inr b))
   \<and> (iter N (nodes s) = pre @ n # post \<and> (\<forall>m\<in>set pre. answers N m) \<and> \<not> answers N n \<longrightarrow>
        (\<exists>e. resolve_conflicts L N s = (Inl e, snd (resolve_conflicts_loop L N pre False s))))"
  using loop_skip_refusing[of N n L pre post False s] loop_returns[of "iter N (nodes s)" N L False s]
    loop_raises[of pre N n L post False s]
  by (simp add: resolve_conflicts_def)

lemma demo_answers:
  "answers demo_net ''peer1''" "answers demo_net ''peer3''" "refuses demo_net ''peer3''"
  "\<not> answers demo_net ''peer4''"
  by (simp_all add: answers_def refuses_def demo_net_def demo_urls demo_get_def)

theorem resolve_conflicts_peer_failures_witness:
  "iter demo_net (nodes ledger_13) = [''peer1''] @ ''peer3'' # []
   \<and> refuses demo_net ''peer3'' \<and> answers demo_net ''peer1'' \<and> answers demo_net ''peer3''
   \<and> resolve_conflicts demo_lib demo_net ledger_13 =
        resolve_conflicts_loop demo_lib demo_net [''peer1''] False ledger_13
   \<and> (\<exists>b. fst (resolve_conflicts demo_lib demo_net ledger_13) = Inr b)
   \<and> iter demo_net (nodes ledger_14) = [''peer1''] @ ''peer4'' # []
   \<and> \<not> answers demo_net ''peer4''
   \<and> (\<exists>e. resolve_conflicts demo_lib demo_net ledger_14 =
          (Inl e, snd (resolve_conflicts_loop demo_lib demo_net [''peer1''] False ledger_14)))"
proof -
  have i13: "iter demo_net (nodes ledger_13) = [''peer1''] @ ''peer3'' # []"
    by (simp add: demo_net_def ledger_13_def)
  have i14: "iter demo_net (nodes ledger_14) = [''peer1''] @ ''peer4'' # []"
    by (simp add: demo_net_def ledger_14_def)
  have all13: "\<forall>m\<in>set (iter demo_net (nodes ledger_13)). answers demo_net m"
    unfolding i13 by (simp add: demo_answers)
  have pre14: "\<forall>m\<in>set [''peer1'']. answers demo_net m" by (simp add: demo_answers)
  note t13 = resolve_conflicts_peer_failures
    [of demo_net ledger_13 "[''peer1'']" "''peer3''" "[]" demo_lib]
  note t14 = resolve_conflicts_peer_failures
    [of demo_net ledger_14 "[''peer1'']" "''peer4''" "[]" demo_lib]
  have a: "resolve_conflicts demo_lib demo_net ledger_13 =
        resolve_conflicts_loop demo_lib demo_net ([''peer1''] @ []) False ledger_13"
    by (rule mp [OF conjunct1 [OF t13] conjI [OF i13 demo_answers(3)]])
  have b: "\<exists>b. fst (resolve_conflicts demo_lib demo_net ledger_13) = Inr b"
    by (rule mp [OF conjunct1 [OF conjunct2 [OF t13]] all13])
  have c: "\<exists>e. resolve_conflicts demo_lib demo_net ledger_14 =
          (Inl e, snd (resolve_conflicts_loop demo_lib demo_net [''peer1''] False ledger_14))"
    by (rule mp [OF conjunct2 [OF conjunct2 [OF t14]] conjI [OF i14 conjI [OF pre14 demo_answers(4)]]])
  from a have a': "resolve_conflicts demo_lib demo_net ledger_13 =
        resolve_conflicts_loop demo_lib demo_net [''peer1''] False ledger_13"
    by (simp only: append_Nil2)
  from a' b c i13 i14 demo_answers show ?thesis by blast
qed

text \<open>
  C1 as the specification words it fails. On \<open>ledger_4\<close> the only peer cannot be
  reached: \<open>requests.get\<close> raises, nothing catches it, and the call ends in
  ConnectionError instead of returning. On \<open>ledger_14\<close>, \<open>peer1\<close> first serves a
  longer valid chain, which is adopted, and then \<open>peer4\<close> cannot be reached: the call
  raises with the chain already replaced.
\<close>

theorem resolve_conflicts_aborts:
  "resolve_conflicts demo_lib demo_net ledger_4 = (Inl ConnectionError, ledger_4)
   \<and> resolve_conflicts demo_lib demo_net ledger_14 =
       (Inl ConnectionError, ledger_14\<lparr>chain := [demo_genesis, demo_block2]\<rparr>)"
  by (simp add: resolve_conflicts_def demo_net_def ledger_4_def ledger_14_def demo_urls
      demo_get_def demo_valid2)

section \<open>Chains built by sealing\<close>

lemma loop_result_valid:
  assumes a: "proof_of_work_loop L lp p = Some r"
  shows "valid_proof L lp r"
  by (rule proof_of_work_loop.raw_induct[where P="\<lambda>L lp p r. valid_proof L lp r", OF _ a])
     (auto split: if_splits)

lemma proof_of_work_valid:
  "proof_of_work L lp = Some p \<Longrightarrow> valid_proof L lp p"
  unfolding proof_of_work_def by (rule loop_result_valid)

lemma valid_chain_loop_snoc:
  "valid_chain_loop L prev (c @ [b]) =
     (valid_chain_loop L prev c \<and>
      (case (if c = [] then prev else Some (last c)) of
         None \<Rightarrow> True
       | Some lb \<Rightarrow> previous_hash b = PStr (block_hash L lb) \<and> valid_proof L (proof lb) (proof b)))"
proof (induction L prev c rule: valid_chain_loop.induct)
  case (1 L last_block)
  show ?case by (cases last_block) auto
next
  case (2 L block rest)
  then show ?case by auto
next
  case (3 L last_block block rest)
  then show ?case by auto
qed

lemma valid_chain_snoc:
  "c \<noteq> [] \<Longrightarrow> valid_chain L (c @ [b]) =
     (valid_chain L c \<and> previous_hash b = PStr (block_hash L (last c))
        \<and> valid_proof L (proof (last c)) (proof b))"
  by (simp add: valid_chain_def valid_chain_loop_snoc)

lemma seal_next_step:
  assumes "seal_next L now s = Some (Inr block, s')" and "valid_chain L (chain s)"
  shows "valid_chain L (chain s') \<and> length (chain s') = Suc (length (chain s))"
proof -
  from assms(1) have ne: "chain s \<noteq> []"
    by (auto simp: seal_next_def last_block_def split: if_splits)
  from assms(1) ne obtain p where
    p: "proof_of_work L (proof (last (chain s))) = Some p"
    and nb: "new_block p (PStr (block_hash L (last (chain s)))) now s = (Inr block, s')"
    by (auto simp: seal_next_def last_block_def split: option.splits)
  from nb have "chain s' = chain s @ [block]" "proof block = p"
      "previous_hash block = PStr (block_hash L (last (chain s)))"
    by (auto simp: new_block_def Let_def split: if_splits)
  with proof_of_work_valid[OF p] assms(2) ne show ?thesis
    by (simp add: valid_chain_snoc)
qed

lemma mine_step:
  assumes "mine L node_identifier now s = Some (Inr res, s')" and "valid_chain L (chain s)"
  shows "valid_chain L (chain s') \<and> length (chain s') = Suc (length (chain s))"
proof -
  from assms(1) have ne: "chain s \<noteq> []"
    by (auto simp: mine_def last_block_def split: if_splits)
  let ?s1 = "snd (new_transaction ''0'' node_identifier 1 s)"
  have c1: "chain ?s1 = chain s" by (simp add: new_transaction_def Let_def)
  from assms(1) ne obtain p block where
    p: "proof_of_work L (proof (last (chain s))) = Some p"
    and nb: "new_block p (PStr (block_hash L (last (chain s)))) now ?s1 = (Inr block, s')"
    by (auto simp: mine_def last_block_def Let_def split: option.splits prod.splits sum.splits)
  from nb c1 have "chain s' = chain s @ [block]" "proof block = p"
      "previous_hash block = PStr (block_hash L (last (chain s)))"
    by (auto simp: new_block_def Let_def split: if_splits)
  with proof_of_work_valid[OF p] assms(2) ne show ?thesis
    by (simp add: valid_chain_snoc)
qed

lemma run_invariant:
  "run L calls s0 = Some (Inr s) \<Longrightarrow> valid_chain L (chain s0) \<Longrightarrow>
     valid_chain L (chain s) \<and> length (chain s) = length (chain s0) + length (filter is_sealing calls)"
proof (induction L calls s0 rule: run.induct)
  case (1 L s0)
  then show ?case by simp
next
  case (2 L sndr rcpt amt cs s0)
  then show ?case by (simp add: new_transaction_def Let_def)
next
  case (3 L address cs s0)
  then show ?case by (simp add: register_node_def)
next
  case (4 L now cs s0)
  from "4.prems"(1) obtain block s1 where
    st: "seal_next L now s0 = Some (Inr block, s1)" and rest: "run L cs s1 = Some (Inr s)"
    by (auto split: option.splits sum.splits prod.splits)
  from seal_next_step[OF st "4.prems"(2)] have
    v: "valid_chain L (chain s1)" and l: "length (chain s1) = Suc (length (chain s0))" by auto
  from "4.IH"[OF st refl refl rest v] l show ?case by simp
next
  case (5 L node_identifier now cs s0)
  from "5.prems"(1) obtain res s1 where
    st: "mine L node_identifier now s0 = Some (Inr res, s1)" and rest: "run L cs s1 = Some (Inr s)"
    by (auto split: option.splits sum.splits prod.splits)
  from mine_step[OF st "5.prems"(2)] have
    v: "valid_chain L (chain s1)" and l: "length (chain s1) = Suc (length (chain s0))" by auto
  from "5.IH"[OF st refl refl rest v] l show ?case by simp
qed

lemma proof_of_work_returns:
  assumes "\<exists>q\<ge>0. valid_proof L lp q"
  shows "\<exists>p. proof_of_work L lp = Some p"
proof -
  from assms obtain q where "0 \<le> q" "valid_proof L lp q" by blast
  from loop_finds_least[OF this(2) this(1)] show ?thesis
    unfolding proof_of_work_def by blast
qed

lemma seal_next_returns:
  assumes "chain s \<noteq> []" and "\<forall>lp. \<exists>q\<ge>0. valid_proof L lp q" and "\<forall>b. block_hash L b \<noteq> []"
  shows "\<exists>block s'. seal_next L now s = Some (Inr block, s')"
proof -
  from assms(2) proof_of_work_returns obtain p where
    "proof_of_work L (proof (last (chain s))) = Some p" by blast
  with assms(1,3) show ?thesis
    by (simp add: seal_next_def last_block_def new_block_def Let_def)
qed

lemma mine_returns:
  assumes "chain s \<noteq> []" and "\<forall>lp. \<exists>q\<ge>0. valid_proof L lp q" and "\<forall>b. block_hash L b \<noteq> []"
  shows "\<exists>res s'. mine L node_identifier now s = Some (Inr res, s')"
proof -
  from assms(2) proof_of_work_returns obtain p where
    "proof_of_work L (proof (last (chain s))) = Some p" by blast
  with assms(1,3) show ?thesis
    by (simp add: mine_def last_block_def new_block_def new_transaction_def Let_def)
qed

lemma seal_next_grows:
  "seal_next L now s = Some (Inr block, s') \<Longrightarrow> chain s' \<noteq> []"
  by (auto simp: seal_next_def last_block_def new_block_def Let_def
      split: if_splits option.splits)

lemma mine_grows:
  "mine L node_identifier now s = Some (Inr res, s') \<Longrightarrow> chain s' \<noteq> []"
  by (auto simp: mine_def last_block_def new_block_def new_transaction_def Let_def
      split: if_splits option.splits)

lemma run_returns:
  assumes "\<forall>lp. \<exists>q\<ge>0. valid_proof L lp q" and "\<forall>b. block_hash L b \<noteq> []"
  shows "chain s0 \<noteq> [] \<Longrightarrow> \<exists>s. run L calls s0 = Some (Inr s)"
proof (induction calls arbitrary: s0)
  case Nil
  show ?case by simp
next
  case (Cons c cs)
  show ?case
  proof (cases c)
    case (Submit sndr rcpt amt)
    have "chain (snd (new_transaction sndr rcpt amt s0)) \<noteq> []"
      using Cons.prems by (simp add: new_transaction_def Let_def)
    from Cons.IH[OF this] Submit show ?thesis by simp
  next
    case (Register address)
    have "chain (snd (register_node address s0)) \<noteq> []"
      using Cons.prems by (simp add: register_node_def)
    from Cons.IH[OF this] Register show ?thesis by simp
  next
    case (Seal now)
    from seal_next_returns[OF Cons.prems assms] obtain block s1 where
      st: "seal_next L now s0 = Some (Inr block, s1)" by blast
    from Cons.IH[OF seal_next_grows[OF st]] st Seal show ?thesis by simp
  next
    case (Mine node_identifier now)
    from mine_returns[OF Cons.prems assms] obtain res s1 where
      st: "mine L node_identifier now s0 = Some (Inr res, s1)" by blast
    from Cons.IH[OF mine_grows[OF st]] st Mine show ?thesis by simp
  qed
qed

lemma demo_digits:
  "sum_list (map of_char (str_int 0)) mod 4 = (0::nat)"
  "sum_list (map of_char (str_int 1)) mod 4 = (1::nat)"
  "sum_list (map of_char (str_int 2)) mod 4 = (2::nat)"
  "sum_list (map of_char (str_int 3)) mod 4 = (3::nat)"
  by (simp_all add: str_int_def str_nat.simps digit_char_def)

lemma mod4_sum:
  "a mod 4 = x \<Longrightarrow> b mod 4 = y \<Longrightarrow> (x + y) mod 4 = 3 \<Longrightarrow> (a + b) mod 4 = (3::nat)"
  by (metis mod_add_eq)

lemma demo_valid_by_sum:
  "(sum_list (map of_char (str_int lp)) + sum_list (map of_char (str_int q))) mod 4 = (3::nat)
     \<Longrightarrow> valid_proof demo_lib lp q"
  by (simp add: valid_proof_def hash_def demo_lib_def demo_sha256_def)

lemma demo_solvable: "\<exists>q\<ge>0. valid_proof demo_lib lp q"
proof -
  define k :: nat where "k = sum_list (map of_char (str_int lp))"
  have "k mod 4 = 0 \<or> k mod 4 = 1 \<or> k mod 4 = 2 \<or> k mod 4 = 3" by presburger
  then have "\<exists>q\<in>{0, 1, 2, 3::int}. (k + sum_list (map of_char (str_int q))) mod 4 = (3::nat)"
  proof (elim disjE)
    assume "k mod 4 = 0"
    from mod4_sum [OF this demo_digits(4)]
    have "(k + sum_list (map of_char (str_int 3))) mod 4 = (3::nat)" by simp
    then show ?thesis by blast
  next
    assume "k mod 4 = 1"
    from mod4_sum [OF this demo_digits(3)]
    have "(k + sum_list (map of_char (str_int 2))) mod 4 = (3::nat)" by simp
    then show ?thesis by blast
  next
    assume "k mod 4 = 2"
    from mod4_sum [OF this demo_digits(2)]
    have "(k + sum_list (map of_char (str_int 1))) mod 4 = (3::nat)" by simp
    then show ?thesis by blast
  next
    assume "k mod 4 = 3"
    from mod4_sum [OF this demo_digits(1)]
    have "(k + sum_list (map of_char (str_int 0))) mod 4 = (3::nat)" by simp
    then show ?thesis by blast
  qed
  then obtain q where q: "q \<in> {0, 1, 2, 3::int}"
    "(k + sum_list (map of_char (str_int q))) mod 4 = (3::nat)" by blast
  from q(2) have "valid_proof demo_lib lp q" unfolding k_def by (rule demo_valid_by_sum)
  moreover from q(1) have "0 \<le> q" by auto
  ultimately show ?thesis by blast
qed

lemma demo_hash_nonempty: "block_hash demo_lib b \<noteq> []"
  by (simp add: block_hash_def hash_def demo_lib_def demo_sha256_def Let_def)

text \<open>
  C7: from a freshly constructed ledger, take any sequence of calls in which every new
  block is sealed with \<open>proof_of_work\<close> of the last block's proof and \<open>block_hash\<close> of
  the last block (directly, or through the \<open>/mine\<close> handler). If every puzzle has a
  solution and no block hash is the empty string, every call returns; and whenever the
  calls return, the chain has one block more than the number of sealing calls and passes
  \<open>valid_chain\<close>.
\<close>

theorem sealed_chain_valid:
  "((\<forall>lp. \<exists>q\<ge>0. valid_proof L lp q) \<and> (\<forall>b. block_hash L b \<noteq> []) \<longrightarrow>
      (\<exists>s. run L calls (snd (Blockchain_init now)) = Some (Inr s)))
   \<and> (\<forall>s. run L calls (snd (Blockchain_init now)) = Some (Inr s) \<longrightarrow>
         length (chain s) = length (filter is_sealing calls) + 1 \<and> valid_chain L (chain s))"
proof (intro conjI impI allI)
  assume "(\<forall>lp. \<exists>q\<ge>0. valid_proof L lp q) \<and> (\<forall>b. block_hash L b \<noteq> [])"
  then have h: "\<forall>lp. \<exists>q\<ge>0. valid_proof L lp q" "\<forall>b. block_hash L b \<noteq> []" by blast+
  have "chain (snd (Blockchain_init now)) \<noteq> []"
    by (simp add: Blockchain_init_def genesis_block_def new_block_def Let_def)
  from run_returns[OF h this] show "\<exists>s. run L calls (snd (Blockchain_init now)) = Some (Inr s)" .
next
  fix s assume r: "run L calls (snd (Blockchain_init now)) = Some (Inr s)"
  have g: "valid_chain L (chain (snd (Blockchain_init now)))"
      "length (chain (snd (Blockchain_init now))) = 1"
    by (simp_all add: Blockchain_init_def genesis_block_def new_block_def valid_chain_def Let_def)
  from run_invariant[OF r g(1)] g(2)
  show "length (chain s) = length (filter is_sealing calls) + 1" by simp
  from run_invariant[OF r g(1)] show "valid_chain L (chain s)" by simp
qed

lemma demo_run:
  "run demo_lib demo_calls (snd (Blockchain_init 0)) =
     Some (Inr \<lparr>nodes = {''peer1''}, chain = [demo_genesis, demo_block2, demo_fee_block],
                 unverified_transactions = []\<rparr>)"
  by (simp add: demo_calls_def Blockchain_init_def genesis_block_def new_block_def
      new_transaction_def register_node_def seal_next_def mine_def last_block_def Let_def
      proof_of_work_def proof_of_work_loop.simps demo_genesis_def demo_block2_def
      demo_fee_block_def demo_pending_def valid_proof_def hash_def block_hash_def demo_lib_def
      demo_sha256_def str_int_def str_nat.simps digit_char_def)

theorem sealed_chain_valid_witness:
  "(\<forall>lp. \<exists>q\<ge>0. valid_proof demo_lib lp q) \<and> (\<forall>b. block_hash demo_lib b \<noteq> [])
   \<and> (\<exists>s. run demo_lib demo_calls (snd (Blockchain_init 0)) = Some (Inr s)
         \<and> chain s = [demo_genesis, demo_block2, demo_fee_block]
         \<and> length (chain s) = length (filter is_sealing demo_calls) + 1
         \<and> valid_chain demo_lib (chain s))
   \<and> length (filter is_sealing demo_calls) = 2"
proof -
  note t = sealed_chain_valid [of demo_lib demo_calls 0]
  have h: "(\<forall>lp. \<exists>q\<ge>0. valid_proof demo_lib lp q) \<and> (\<forall>b. block_hash demo_lib b \<noteq> [])"
    using demo_solvable demo_hash_nonempty by blast
  from mp [OF conjunct1 [OF t] h] obtain s where
    s: "run demo_lib demo_calls (snd (Blockchain_init 0)) = Some (Inr s)" by blast
  from conjunct2 [OF t] s have p:
    "length (chain s) = length (filter is_sealing demo_calls) + 1 \<and> valid_chain demo_lib (chain s)"
    by blast
  from s demo_run have "chain s = [demo_genesis, demo_block2, demo_fee_block]" by auto
  moreover have "length (filter is_sealing demo_calls) = 2" by (simp add: demo_calls_def)
  ultimately show ?thesis using h s p by blast
qed

end
